theory Spec2Isabelle
  imports Main "HOL-Library.Word"
begin

section \<open>The asynchronous batcher\<close>

subsection \<open>Data model\<close>

text \<open>
  Pointers to \<open>Batch\<close> objects are addresses (natural numbers) into a heap of batches.
  The slots of an \<open>AsyncBatcher\<close> are allocated once by \<open>NewAsyncBatcher\<close> and never
  replaced, so a pointer to a slot is its index in \<open>batches\<close>.
\<close>

record ('k, 'v) BatchItem =
  batch :: nat
  Key :: 'k
  Value :: 'v

datatype ExecutionState = Complete | Incomplete | Fatal | unknownType

text \<open>
  Modelled from the spec: \<open>kgo.Record\<close>, \<open>EventContext\<close> with its accessors \<open>Offset\<close> and
  \<open>Input\<close>, and \<open>newEventContext\<close> are not among the sources. A context carries its optional
  input record and the producer handle it has cached; its offset is the record's offset,
  and \<open>-1\<close> when there is no record. Offsets are \<open>int64\<close>.
\<close>

record kgo_Record =
  Offset :: "64 word"
  Payload :: string

record EventContext =
  input :: "kgo_Record option"
  producer :: "nat option"

definition ec_Offset :: "EventContext \<Rightarrow> 64 word" where
  "ec_Offset ec = (case input ec of Some r \<Rightarrow> Offset r | None \<Rightarrow> - 1)"

definition newEventContext :: "kgo_Record \<Rightarrow> EventContext" where
  "newEventContext r = \<lparr>input = Some r, producer = None\<rparr>"

text \<open>
  A \<open>finalize\<close> function takes no argument; it is represented by the pair it returns, the
  error being \<open>None\<close> for \<open>nil\<close>.
\<close>

record asyncJob =
  ctx :: EventContext
  finalize :: "ExecutionState \<times> string option"

text \<open>
  What a batch does when its last item completes: it either calls the user's callback or
  hands an asynchronous job to its event context.
\<close>

datatype terminal =
  CallbackInvoked
  | AsyncJobComplete asyncJob

record ('k, 'v) Batch =
  EventContext :: EventContext
  Items :: "('k, 'v) BatchItem list"
  callback :: bool \<comment> \<open>\<open>callback != nil\<close>\<close>
  completed :: "64 word"

datatype asyncBatchState = batcherReady | batcherExecuting

record ('k, 'v) asyncBatch =
  items :: "('k, 'v) BatchItem list"
  state :: asyncBatchState
  flushTimer :: bool \<comment> \<open>\<open>flushTimer != nil\<close>\<close>

text \<open>
  \<open>launched\<close> lists the slots for which \<open>go ab.executeBatch(batch)\<close> has been issued and
  whose goroutine has not run yet. A \<open>time.Duration\<close> is an \<open>int64\<close> number of
  nanoseconds, read as a signed value.
\<close>

record ('k, 'v) AsyncBatcher =
  batches :: "('k, 'v) asyncBatch list"
  assignments :: "'k \<rightharpoonup> nat"
  pendingItems :: "('k, 'v) BatchItem list"
  executingCount :: int
  MaxBatchSize :: int
  BatchDelay :: "64 word"
  launched :: "nat list"

datatype error = MakeSliceLenOutOfRange | MakeSliceCapOutOfRange | NegativeWaitGroupCounter

subsection \<open>Batch completion\<close>

definition batchFor_item :: "('k, 'v) BatchItem \<Rightarrow> nat" where
  "batchFor_item bi = batch bi"

definition completeItem :: "('k, 'v) Batch \<Rightarrow> ('k, 'v) Batch \<times> terminal option" where
  "completeItem b =
     (let b' = b\<lparr>completed := completed b + 1\<rparr> in
      if completed b' = word_of_nat (length (Items b')) then
        (if callback b' then (b', Some CallbackInvoked)
         else (b', Some (AsyncJobComplete \<lparr>ctx = EventContext b', finalize = (Complete, None)\<rparr>)))
      else (b', None))"

subsection \<open>Slots\<close>

definition add_item :: "('k, 'v) asyncBatch \<Rightarrow> ('k, 'v) BatchItem \<Rightarrow> ('k, 'v) asyncBatch" where
  "add_item b item = b\<lparr>items := items b @ [item]\<rparr>"

fun delete_keys :: "('k \<rightharpoonup> nat) \<Rightarrow> ('k, 'v) BatchItem list \<Rightarrow> ('k \<rightharpoonup> nat)" where
  "delete_keys m [] = m"
| "delete_keys m (item # rest) = delete_keys (m(Key item := None)) rest"

definition reset ::
  "('k, 'v) asyncBatch \<Rightarrow> ('k \<rightharpoonup> nat) \<Rightarrow> ('k, 'v) asyncBatch \<times> ('k \<rightharpoonup> nat)" where
  "reset b m = (b\<lparr>items := [], state := batcherReady\<rparr>, delete_keys m (items b))"

subsection \<open>Construction\<close>

text \<open>
  Modelled from the spec: \<open>sak.Abs\<close> is not among the sources. The spec says a negative
  delay is normalised to its absolute value, so the helper returns the absolute value of
  the signed value, as an \<open>int64\<close>. The absolute value of the least \<open>int64\<close> is not an
  \<open>int64\<close>.
\<close>

definition sak_Abs :: "64 word \<Rightarrow> 64 word" where
  "sak_Abs d = word_of_int \<bar>sint d\<bar>"

definition Millisecond :: "64 word" where
  "Millisecond = 1000000"

text \<open>
  \<open>make\<close> panics on a length or a capacity that is negative or larger than the runtime
  allows for the element type. The two limits depend on the platform and on the size of
  the elements; they are the first two arguments: \<open>lenLimit\<close> for the slice of slots,
  \<open>capLimit\<close> for the items of a slot. The capacity is only evaluated inside the loop,
  that is when there is at least one slot.
\<close>

definition NewAsyncBatcher ::
  "int \<Rightarrow> int \<Rightarrow> int \<Rightarrow> int \<Rightarrow> 64 word \<Rightarrow> error + ('k, 'v) AsyncBatcher" where
  "NewAsyncBatcher lenLimit capLimit maxBatchSize maxConcurrentBatches delay =
     (if maxConcurrentBatches < 0 \<or> lenLimit < maxConcurrentBatches then Inl MakeSliceLenOutOfRange
      else if 0 < maxConcurrentBatches \<and> (maxBatchSize < 0 \<or> capLimit < maxBatchSize) then
        Inl MakeSliceCapOutOfRange
      else
        let bs = replicate (nat maxConcurrentBatches)
                   \<lparr>items = [], state = batcherReady, flushTimer = False\<rparr>;
            delay' = (if delay = 0 then Millisecond * 5 else delay)
        in Inr \<lparr>batches = bs, assignments = Map.empty, pendingItems = [],
                executingCount = 0, MaxBatchSize = maxBatchSize,
                BatchDelay = sak_Abs delay', launched = []\<rparr>)"

subsection \<open>Admission\<close>

fun firstReady :: "('k, 'v) asyncBatch list \<Rightarrow> nat \<Rightarrow> nat option" where
  "firstReady [] i = None"
| "firstReady (b # bs) i = (if state b = batcherReady then Some i else firstReady bs (Suc i))"

definition batchFor :: "('k, 'v) AsyncBatcher \<Rightarrow> ('k, 'v) BatchItem \<Rightarrow> nat option" where
  "batchFor ab item =
     (case assignments ab (Key item) of
        Some i \<Rightarrow> if state (batches ab ! i) = batcherReady then Some i else None
      | None \<Rightarrow> firstReady (batches ab) 0)"

definition conditionallyExecuteBatch :: "('k, 'v) AsyncBatcher \<Rightarrow> nat \<Rightarrow> ('k, 'v) AsyncBatcher" where
  "conditionallyExecuteBatch ab i =
     (if state (batches ab ! i) = batcherReady then
        ab\<lparr>batches := (batches ab)[i := (batches ab ! i)\<lparr>state := batcherExecuting, flushTimer := False\<rparr>],
           executingCount := executingCount ab + 1,
           launched := launched ab @ [i]\<rparr>
      else ab)"

definition addToBatch ::
  "('k, 'v) AsyncBatcher \<Rightarrow> ('k, 'v) BatchItem \<Rightarrow> nat \<Rightarrow> ('k, 'v) AsyncBatcher" where
  "addToBatch ab item i =
     (let ab1 = ab\<lparr>assignments := (assignments ab)(Key item \<mapsto> i),
                   batches := (batches ab)[i := add_item (batches ab ! i) item]\<rparr>
      in if int (length (items (batches ab1 ! i))) = MaxBatchSize ab1 then
           conditionallyExecuteBatch ab1 i
         else if \<not> flushTimer (batches ab1 ! i) then
           ab1\<lparr>batches := (batches ab1)[i := (batches ab1 ! i)\<lparr>flushTimer := True\<rparr>]\<rparr>
         else ab1)"

definition add :: "('k, 'v) AsyncBatcher \<Rightarrow> ('k, 'v) BatchItem \<Rightarrow> ('k, 'v) AsyncBatcher" where
  "add ab bi =
     (case batchFor ab bi of
        Some b \<Rightarrow> addToBatch ab bi b
      | None \<Rightarrow> ab\<lparr>pendingItems := pendingItems ab @ [bi]\<rparr>)"

text \<open>
  The loop of \<open>flushPendingItems\<close> walks the pending list from its front. \<open>kept\<close> holds the
  elements already passed and left in the list, the third argument the element \<open>el\<close> and
  its successors. On saturation the function returns before \<open>Remove(el)\<close>.
\<close>

fun flushLoop ::
  "('k, 'v) AsyncBatcher \<Rightarrow> ('k, 'v) BatchItem list \<Rightarrow> ('k, 'v) BatchItem list
     \<Rightarrow> ('k, 'v) AsyncBatcher" where
  "flushLoop ab kept [] = ab\<lparr>pendingItems := kept\<rparr>"
| "flushLoop ab kept (el # rest) =
     (case batchFor ab el of
        Some b \<Rightarrow>
          (let ab' = addToBatch ab el b in
           if executingCount ab' = int (length (batches ab')) then
             ab'\<lparr>pendingItems := kept @ el # rest\<rparr>
           else flushLoop ab' kept rest)
      | None \<Rightarrow> flushLoop ab (kept @ [el]) rest)"

definition flushPendingItems :: "('k, 'v) AsyncBatcher \<Rightarrow> ('k, 'v) AsyncBatcher" where
  "flushPendingItems ab = flushLoop ab [] (pendingItems ab)"

definition AsyncBatcher_Add :: "('k, 'v) AsyncBatcher \<Rightarrow> ('k, 'v) Batch \<Rightarrow> ('k, 'v) AsyncBatcher" where
  "AsyncBatcher_Add ab b = foldl add ab (Items b)"

subsection \<open>Building batches\<close>

text \<open>
  \<open>Add\<close> and \<open>AddKeyValue\<close> make every item they append point to the batch; their first
  argument is the address of the batch.
\<close>

definition NewBatch :: "EventContext \<Rightarrow> bool \<Rightarrow> ('k, 'v) Batch" where
  "NewBatch ec cb = \<lparr>EventContext = ec, Items = [], callback = cb, completed = 0\<rparr>"

definition Batch_Add :: "nat \<Rightarrow> ('k, 'v) Batch \<Rightarrow> ('k, 'v) BatchItem list \<Rightarrow> ('k, 'v) Batch" where
  "Batch_Add a b its = b\<lparr>Items := Items b @ map (\<lambda>it. it\<lparr>batch := a\<rparr>) its\<rparr>"

definition AddKeyValue :: "nat \<Rightarrow> ('k, 'v) Batch \<Rightarrow> 'k \<Rightarrow> 'v \<Rightarrow> ('k, 'v) Batch" where
  "AddKeyValue a b k v = b\<lparr>Items := Items b @ [\<lparr>batch = a, Key = k, Value = v\<rparr>]\<rparr>"

subsection \<open>The batcher with its batches and its executor\<close>

text \<open>
  The batcher runs against a heap of batches. Three traces record what happens outside
  the batcher: the slices handed to the executor, the addresses \<open>completeItem\<close> is called
  on, and the terminal actions with the address of the batch that fired them.
\<close>

record ('k, 'v) system =
  batcher :: "('k, 'v) AsyncBatcher"
  heap :: "nat \<Rightarrow> ('k, 'v) Batch"
  executorCalls :: "('k, 'v) BatchItem list list"
  completeCalls :: "nat list"
  terminals :: "(nat \<times> terminal) list"

definition completeItem_at :: "('k, 'v) system \<Rightarrow> nat \<Rightarrow> ('k, 'v) system" where
  "completeItem_at s a =
     (case completeItem (heap s a) of
        (b', t) \<Rightarrow>
          s\<lparr>heap := (heap s)(a := b'),
            completeCalls := completeCalls s @ [a],
            terminals := terminals s @ (case t of None \<Rightarrow> [] | Some x \<Rightarrow> [(a, x)])\<rparr>)"

fun completeAll :: "('k, 'v) system \<Rightarrow> ('k, 'v) BatchItem list \<Rightarrow> ('k, 'v) system" where
  "completeAll s [] = s"
| "completeAll s (item # rest) = completeAll (completeItem_at s (batchFor_item item)) rest"

definition executeBatch :: "('k, 'v) system \<Rightarrow> nat \<Rightarrow> ('k, 'v) system" where
  "executeBatch s i =
     (let its = items (batches (batcher s) ! i);
          s1 = s\<lparr>executorCalls := executorCalls s @ [its]\<rparr>;
          s2 = completeAll s1 its;
          ab = batcher s2;
          ab1 = ab\<lparr>executingCount := executingCount ab - 1\<rparr>;
          r = reset (batches ab1 ! i) (assignments ab1);
          ab2 = ab1\<lparr>batches := (batches ab1)[i := fst r], assignments := snd r\<rparr>
      in s2\<lparr>batcher := flushPendingItems ab2\<rparr>)"

text \<open>
  What can happen to the batcher: a batch is submitted through \<open>Add\<close>; the flush timer of
  a slot runs its callback (stopping a timer is best effort, so the callback may run at
  any time); a launched \<open>executeBatch\<close> goroutine runs. Each takes the mutex for its
  changes to the batcher, so they are atomic steps. \<open>Add\<close> takes the mutex once per item:
  \<open>Submit a\<close> is a whole call of \<open>Add\<close> on the batch at \<open>a\<close> that nothing interrupts,
  \<open>AddItem a n\<close> is the iteration of its loop for the item at index \<open>n\<close> alone, so that
  other steps may come between the items of one batch.
\<close>

datatype event = Submit nat | AddItem nat nat | TimerFired nat | BatchRun nat

fun step :: "('k, 'v) system \<Rightarrow> event \<Rightarrow> ('k, 'v) system" where
  "step s (Submit a) = s\<lparr>batcher := AsyncBatcher_Add (batcher s) (heap s a)\<rparr>"
| "step s (AddItem a n) =
     (if n < length (Items (heap s a)) then
        s\<lparr>batcher := add (batcher s) (Items (heap s a) ! n)\<rparr>
      else s)"
| "step s (TimerFired i) =
     (if i < length (batches (batcher s)) then
        s\<lparr>batcher := conditionallyExecuteBatch (batcher s) i\<rparr>
      else s)"
| "step s (BatchRun i) =
     (if i \<in> set (launched (batcher s)) then
        executeBatch (s\<lparr>batcher := (batcher s)\<lparr>launched := remove1 i (launched (batcher s))\<rparr>\<rparr>) i
      else s)"

definition run :: "('k, 'v) system \<Rightarrow> event list \<Rightarrow> ('k, 'v) system" where
  "run s es = foldl step s es"

definition start :: "('k, 'v) AsyncBatcher \<Rightarrow> (nat \<Rightarrow> ('k, 'v) Batch) \<Rightarrow> ('k, 'v) system" where
  "start ab h = \<lparr>batcher = ab, heap = h, executorCalls = [], completeCalls = [], terminals = []\<rparr>"

text \<open>\<open>k\<close> successive calls of \<open>completeItem\<close> on one batch, with the actions they fire.\<close>

fun completeItems :: "nat \<Rightarrow> ('k, 'v) Batch \<Rightarrow> ('k, 'v) Batch \<times> terminal list" where
  "completeItems 0 b = (b, [])"
| "completeItems (Suc k) b =
     (case completeItems k b of
        (b1, ts) \<Rightarrow>
          (case completeItem b1 of
             (b2, t) \<Rightarrow> (b2, ts @ (case t of None \<Rightarrow> [] | Some x \<Rightarrow> [x]))))"

section \<open>Concrete scenarios\<close>

text \<open>
  A batcher with two slots: the first is executing a batch holding key \<open>A\<close>, the second
  is ready and holds key \<open>B\<close>.
\<close>

definition ab_demo :: "(string, nat) AsyncBatcher" where
  "ab_demo =
     \<lparr>batches =
        [\<lparr>items = [\<lparr>batch = 1, Key = ''A'', Value = 0\<rparr>], state = batcherExecuting, flushTimer = False\<rparr>,
         \<lparr>items = [\<lparr>batch = 1, Key = ''B'', Value = 0\<rparr>], state = batcherReady, flushTimer = True\<rparr>],
      assignments = [''A'' \<mapsto> 0, ''B'' \<mapsto> 1], pendingItems = [],
      executingCount = 1, MaxBatchSize = 3, BatchDelay = 5000000, launched = [0]\<rparr>"

text \<open>
  What \<open>NewAsyncBatcher\<close> returns for two slots of two items and a delay of \<open>-7\<close>, and
  for one slot of one item and the least \<open>int64\<close> as the delay.
\<close>

definition ab_fresh :: "(string, nat) AsyncBatcher" where
  "ab_fresh =
     \<lparr>batches = [\<lparr>items = [], state = batcherReady, flushTimer = False\<rparr>,
                 \<lparr>items = [], state = batcherReady, flushTimer = False\<rparr>],
      assignments = Map.empty, pendingItems = [],
      executingCount = 0, MaxBatchSize = 2, BatchDelay = 7, launched = []\<rparr>"

definition ab_least :: "(string, nat) AsyncBatcher" where
  "ab_least =
     \<lparr>batches = [\<lparr>items = [], state = batcherReady, flushTimer = False\<rparr>],
      assignments = Map.empty, pendingItems = [],
      executingCount = 0, MaxBatchSize = 1, BatchDelay = - 9223372036854775808, launched = []\<rparr>"

text \<open>A batch of two items, with or without a callback.\<close>

definition batch_demo :: "bool \<Rightarrow> (string, nat) Batch" where
  "batch_demo cb =
     \<lparr>EventContext = \<lparr>input = Some \<lparr>Offset = 10, Payload = ''r''\<rparr>, producer = Some 1\<rparr>,
      Items = [\<lparr>batch = 1, Key = ''A'', Value = 0\<rparr>, \<lparr>batch = 1, Key = ''B'', Value = 1\<rparr>],
      callback = cb, completed = 0\<rparr>"

text \<open>
  Two batches of one item each, with keys \<open>A\<close> and \<open>B\<close>; every other address holds an
  empty batch. \<open>ab_single\<close> is what \<open>NewAsyncBatcher\<close> returns for one slot of one item.
\<close>

definition ec_demo :: "64 word \<Rightarrow> EventContext" where
  "ec_demo n = \<lparr>input = Some \<lparr>Offset = n, Payload = ''r''\<rparr>, producer = Some 1\<rparr>"

definition item_A :: "(string, nat) BatchItem" where
  "item_A = \<lparr>batch = 1, Key = ''A'', Value = 0\<rparr>"

definition item_B :: "(string, nat) BatchItem" where
  "item_B = \<lparr>batch = 2, Key = ''B'', Value = 0\<rparr>"

definition heap_demo :: "nat \<Rightarrow> (string, nat) Batch" where
  "heap_demo a =
     (if a = 1 then \<lparr>EventContext = ec_demo 10, Items = [item_A], callback = True, completed = 0\<rparr>
      else if a = 2 then \<lparr>EventContext = ec_demo 11, Items = [item_B], callback = True, completed = 0\<rparr>
      else \<lparr>EventContext = ec_demo 12, Items = [], callback = True, completed = 0\<rparr>)"

definition ab_single :: "(string, nat) AsyncBatcher" where
  "ab_single =
     \<lparr>batches = [\<lparr>items = [], state = batcherReady, flushTimer = False\<rparr>],
      assignments = Map.empty, pendingItems = [],
      executingCount = 0, MaxBatchSize = 1, BatchDelay = 5000000, launched = []\<rparr>"


section \<open>Invariant of the batcher\<close>

text \<open>
  Every assigned key points to a slot that holds an item with that key, every key of a
  slot's items is assigned to that slot, and only existing slots have been launched.
\<close>

definition batcher_inv :: "('k, 'v) AsyncBatcher \<Rightarrow> bool" where
  "batcher_inv ab \<longleftrightarrow>
     (\<forall>k i. assignments ab k = Some i \<longrightarrow>
        i < length (batches ab) \<and> k \<in> Key ` set (items (batches ab ! i))) \<and>
     (\<forall>i<length (batches ab). \<forall>k \<in> Key ` set (items (batches ab ! i)). assignments ab k = Some i) \<and>
     (\<forall>i \<in> set (launched ab). i < length (batches ab))"

section \<open>Batches that own no item of the batcher\<close>




section \<open>The partition worker\<close>

subsection \<open>Data model\<close>

text \<open>
  Modelled from the spec: the \<open>interjection\<close> type, \<open>newInterjectionContext\<close>, the producer
  pool and \<open>sak.RunStatus\<close> are not among the sources. An interjection has an optional
  cancel hook and an \<open>interject\<close> function, represented by the state it returns; an
  interjection context has no record; \<open>addEventContext\<close> and \<open>addInterjection\<close> enrol a
  context with the pool; \<open>running\<close> is what \<open>runStatus.Running()\<close> returns.
\<close>

record interjection =
  ij_callback :: bool \<comment> \<open>\<open>callback != nil\<close>\<close>
  interject :: ExecutionState

definition newInterjectionContext :: EventContext where
  "newInterjectionContext = \<lparr>input = None, producer = None\<rparr>"

text \<open>
  A buffered channel is the list of its queued values, \<open>asyncFullReply\<close> the number of
  signals queued in its single slot, \<open>stopped\<close> the number of signals sent on it. The
  two channels of the \<open>asyncCompleter\<close> are fields of the worker. The counters are
  \<open>int64\<close>. The last fields are traces of
  what the worker does to its collaborators: the contexts handed to the user's event
  handler, the contexts \<open>complete()\<close> is called on, the errors passed to \<open>log.Errorf\<close>,
  the interjection hooks called, the \<open>tick()\<close> and \<open>cancel()\<close> calls, and the
  \<open>waitForRevocation\<close> goroutines started.
\<close>

record partitionWorker =
  eosProducer :: "EventContext list"
  eventInput :: "EventContext list"
  asyncJobs :: "asyncJob list"
  asyncFullReply :: nat
  interjectionChannel :: "interjection list"
  stopped :: nat
  running :: bool
  pending :: "64 word"
  processed :: "64 word"
  highestOffset :: "64 word"
  revocationWaiter :: int
  handlerCalls :: "EventContext list"
  completeCalled :: "EventContext list"
  errorLog :: "string list"
  callbackCalls :: nat
  ticks :: nat
  cancels :: nat
  drains :: nat

text \<open>\<open>sync.WaitGroup\<close> panics when its counter becomes negative.\<close>

definition wg_Add :: "int \<Rightarrow> int \<Rightarrow> error + int" where
  "wg_Add c n = (if c + n < 0 then Inl NegativeWaitGroupCounter else Inr (c + n))"


definition isRevoked :: "partitionWorker \<Rightarrow> bool" where
  "isRevoked pw = (\<not> running pw)"

subsection \<open>Scheduling records\<close>




subsection \<open>Handling events\<close>

text \<open>
  The user's handler \<open>eventSource.handleEvent\<close> is a parameter: it maps the context and
  its record to a state and an optional error. \<open>delivered\<close> is the value the read of
  \<open>ec.producerChan\<close> yields, \<open>None\<close> for nil. The context is returned with the worker,
  since \<open>ec.producer\<close> is assigned.
\<close>

type_synonym handler = "EventContext \<Rightarrow> kgo_Record option \<Rightarrow> ExecutionState \<times> string option"

definition forwardToEventSource ::
  "handler \<Rightarrow> partitionWorker \<Rightarrow> EventContext \<Rightarrow> nat option \<Rightarrow> partitionWorker \<times> EventContext" where
  "forwardToEventSource h pw ec delivered =
     (let ec' = ec\<lparr>producer := delivered\<rparr> in
      if producer ec' = None then (pw, ec')
      else
        (case h ec' (input ec') of
           (st, err) \<Rightarrow>
             let pw1 = pw\<lparr>handlerCalls := handlerCalls pw @ [ec']\<rparr> in
             if err \<noteq> None then (pw1\<lparr>errorLog := errorLog pw1 @ [the err]\<rparr>, ec')
             else if st = Complete then (pw1\<lparr>completeCalled := completeCalled pw1 @ [ec']\<rparr>, ec')
             else (pw1, ec')))"

definition handleEvent ::
  "handler \<Rightarrow> partitionWorker \<Rightarrow> EventContext \<Rightarrow> nat option
     \<Rightarrow> bool \<times> partitionWorker \<times> EventContext" where
  "handleEvent h pw ec delivered =
     (let offset = ec_Offset ec;
          pw1 = pw\<lparr>pending := pending pw + (- 1)\<rparr>;
          (pw2, ec') = forwardToEventSource h pw1 ec delivered;
          pw3 = pw2\<lparr>highestOffset := offset + 1\<rparr>;
          pw4 = pw3\<lparr>processed := processed pw3 + 1\<rparr>
      in (True, pw4, ec'))"

definition handleInterjection ::
  "partitionWorker \<Rightarrow> interjection \<Rightarrow> nat option \<Rightarrow> error + partitionWorker" where
  "handleInterjection pw ij delivered =
     (if isRevoked pw then
        (if ij_callback ij then Inr (pw\<lparr>callbackCalls := callbackCalls pw + 1\<rparr>) else Inr pw)
      else
        (case wg_Add (revocationWaiter pw) 1 of
           Inl e \<Rightarrow> Inl e
         | Inr c \<Rightarrow>
             let pw1 = pw\<lparr>revocationWaiter := c\<rparr>;
                 ec = newInterjectionContext;
                 pw2 = pw1\<lparr>eosProducer := eosProducer pw1 @ [ec]\<rparr>;
                 ec' = ec\<lparr>producer := delivered\<rparr>
             in if producer ec' = None \<and> ij_callback ij then
                  Inr (pw2\<lparr>callbackCalls := callbackCalls pw2 + 1\<rparr>)
                else if producer ec' \<noteq> None \<and> interject ij = Complete then
                  Inr (pw2\<lparr>completeCalled := completeCalled pw2 @ [ec']\<rparr>)
                else Inr pw2))"

subsection \<open>The work loop\<close>

text \<open>
  One iteration of the \<open>for\<close> loop of \<open>work\<close>, for the case its \<open>select\<close> takes. A case
  that receives from a buffered channel takes the head of its queue, and cannot be taken
  while the queue is empty: the worker is then returned as it is. The cases for events
  and interjections come with the value that \<open>producerChan\<close> yields. The result says
  whether the loop goes on: only the \<open>revokedSignal\<close> case returns.
\<close>

datatype selected =
  FromEventInput "nat option"
  | FromAsyncJobs
  | FromInterjectionChannel "nat option"
  | FromStopSignal
  | FromRevokedSignal

fun work_iteration ::
  "handler \<Rightarrow> interjection list \<Rightarrow> partitionWorker \<Rightarrow> selected \<Rightarrow> error + partitionWorker \<times> bool" where
  "work_iteration h ijPtrs pw (FromEventInput delivered) =
     (case eventInput pw of
        [] \<Rightarrow> Inr (pw, True)
      | ec # queued \<Rightarrow>
          (case handleEvent h (pw\<lparr>eventInput := queued\<rparr>) ec delivered of
             (_, pw', _) \<Rightarrow> Inr (pw', True)))"
| "work_iteration h ijPtrs pw FromAsyncJobs =
     (case asyncJobs pw of
        [] \<Rightarrow> Inr (pw, True)
      | job # queued \<Rightarrow>
          (case finalize job of
             (st, _) \<Rightarrow>
               let pw0 = pw\<lparr>asyncJobs := queued\<rparr>;
                   pw1 = (if st = Complete then pw0\<lparr>completeCalled := completeCalled pw0 @ [ctx job]\<rparr>
                          else pw0);
                   pw2 = (if asyncFullReply pw1 < 1 then pw1\<lparr>asyncFullReply := asyncFullReply pw1 + 1\<rparr>
                          else pw1)
               in Inr (pw2, True)))"
| "work_iteration h ijPtrs pw (FromInterjectionChannel delivered) =
     (case interjectionChannel pw of
        [] \<Rightarrow> Inr (pw, True)
      | ij # queued \<Rightarrow>
          (case handleInterjection (pw\<lparr>interjectionChannel := queued\<rparr>) ij delivered of
             Inl e \<Rightarrow> Inl e
           | Inr pw' \<Rightarrow> Inr (pw'\<lparr>ticks := ticks pw' + 1\<rparr>, True)))"
| "work_iteration h ijPtrs pw FromStopSignal =
     Inr (pw\<lparr>cancels := cancels pw + length ijPtrs, drains := drains pw + 1\<rparr>, True)"
| "work_iteration h ijPtrs pw FromRevokedSignal =
     Inr (pw\<lparr>stopped := stopped pw + 1\<rparr>, False)"

text \<open>A worker at offset 10, a slice with two stale records and a nil, and two handlers.\<close>

definition pw_demo :: partitionWorker where
  "pw_demo =
     \<lparr>eosProducer = [], eventInput = [], asyncJobs = [], asyncFullReply = 0,
      interjectionChannel = [], stopped = 0, running = True,
      pending = 4, processed = 0, highestOffset = 10, revocationWaiter = 0,
      handlerCalls = [], completeCalled = [], errorLog = [],
      callbackCalls = 0, ticks = 0, cancels = 0, drains = 0\<rparr>"









definition handler_complete :: handler where
  "handler_complete ec r = (Complete, None)"

definition job_failed :: asyncJob where
  "job_failed = \<lparr>ctx = ec_demo 10, finalize = (Incomplete, Some ''boom'')\<rparr>"

definition job_complete_failed :: asyncJob where
  "job_complete_failed = \<lparr>ctx = ec_demo 10, finalize = (Complete, Some ''boom'')\<rparr>"

section \<open>Properties of the batcher\<close>

lemma sint_least_int64: "sint (- 9223372036854775808 :: 64 word) = - 9223372036854775808"
  by simp

lemma sint_int64_less: "sint (x :: 64 word) < 9223372036854775808"
  using sint_lt[of x] by simp

lemma sint_int64_ge: "- 9223372036854775808 \<le> sint (x :: 64 word)"
  using sint_ge[of x] by simp

lemma sint_sak_Abs:
  assumes "d \<noteq> - 9223372036854775808"
  shows "sint (sak_Abs d) = \<bar>sint d\<bar>"
proof -
  have "sint d \<noteq> - 9223372036854775808"
  proof
    assume "sint d = - 9223372036854775808"
    then have "sint d = sint (- 9223372036854775808 :: 64 word)" by (simp only: sint_least_int64)
    then have "d = - 9223372036854775808" by (rule signed_word_eqI)
    with assms show False by simp
  qed
  with sint_int64_ge[of d] sint_int64_less[of d]
  have "- (2 ^ 63) \<le> \<bar>sint d\<bar>" "\<bar>sint d\<bar> < 2 ^ 63"
    by simp_all
  then have "signed_take_bit 63 \<bar>sint d\<bar> = \<bar>sint d\<bar>"
    by (rule signed_take_bit_int_eq_self)
  then show ?thesis by (simp add: sak_Abs_def signed_of_int)
qed

text \<open>
  C8, as stated, fails at the least \<open>int64\<close>: the absolute value of that delay is \<open>2 ^ 63\<close>,
  and the signed value of \<open>BatchDelay\<close>, like that of every \<open>int64\<close>, is below \<open>2 ^ 63\<close>.
\<close>

theorem NewAsyncBatcher_least_delay:
  "NewAsyncBatcher (2 ^ 45) (2 ^ 44) 1 1 (- 9223372036854775808) = Inr ab_least \<and>
   \<bar>sint (- 9223372036854775808 :: 64 word)\<bar> = 9223372036854775808 \<and>
   sint (BatchDelay ab_least) < 9223372036854775808 \<and>
   sint (BatchDelay ab_least) \<noteq> \<bar>sint (- 9223372036854775808 :: 64 word)\<bar>"
proof -
  have 1: "NewAsyncBatcher (2 ^ 45) (2 ^ 44) 1 1 (- 9223372036854775808) = Inr ab_least"
    by (simp add: NewAsyncBatcher_def ab_least_def sak_Abs_def)
  have 2: "\<bar>sint (- 9223372036854775808 :: 64 word)\<bar> = 9223372036854775808"
    by simp
  have 3: "sint (BatchDelay ab_least) < 9223372036854775808"
    by (rule sint_int64_less)
  from 2 3 have 4: "sint (BatchDelay ab_least) \<noteq> \<bar>sint (- 9223372036854775808 :: 64 word)\<bar>"
    by simp
  from 1 2 3 4 show ?thesis by (intro conjI)
qed

text \<open>
  C8, amended. \<open>NewAsyncBatcher\<close> normalises the delay: zero becomes exactly 5
  milliseconds, a negative delay other than the least \<open>int64\<close> becomes its absolute value,
  a positive delay is kept.
\<close>

theorem NewAsyncBatcher_BatchDelay:
  "NewAsyncBatcher lenLimit capLimit maxBatchSize maxConcurrentBatches delay
       = Inr (ab :: ('k, 'v) AsyncBatcher) \<Longrightarrow>
     (delay = 0 \<longrightarrow> BatchDelay ab = 5000000) \<and>
     (delay <s 0 \<and> delay \<noteq> - 9223372036854775808 \<longrightarrow> sint (BatchDelay ab) = - sint delay) \<and>
     (0 <s delay \<longrightarrow> BatchDelay ab = delay)"
proof -
  assume new: "NewAsyncBatcher lenLimit capLimit maxBatchSize maxConcurrentBatches delay = Inr ab"
  then have bd: "BatchDelay ab = sak_Abs (if delay = 0 then Millisecond * 5 else delay)"
    by (auto simp: NewAsyncBatcher_def Let_def split: if_splits)
  have z: "BatchDelay ab = 5000000" if "delay = 0"
    using bd that by (simp add: sak_Abs_def Millisecond_def)
  have n: "sint (BatchDelay ab) = - sint delay"
    if "delay <s 0 \<and> delay \<noteq> - 9223372036854775808"
  proof -
    from that have neg: "sint delay < 0" by (simp add: word_sless_alt)
    then have "delay \<noteq> 0" by auto
    with bd have "BatchDelay ab = sak_Abs delay" by simp
    with that sint_sak_Abs[of delay] neg show ?thesis by simp
  qed
  have p: "BatchDelay ab = delay" if "0 <s delay"
  proof -
    from that have pos: "0 < sint delay" by (simp add: word_sless_alt)
    then have "delay \<noteq> 0" by auto
    with bd have "BatchDelay ab = sak_Abs delay" by simp
    with pos show ?thesis by (simp add: sak_Abs_def)
  qed
  from z n p show ?thesis by blast
qed

theorem NewAsyncBatcher_BatchDelay_witness:
  "NewAsyncBatcher (2 ^ 45) (2 ^ 44) 2 2 (- 7) = Inr ab_fresh \<and> sint (BatchDelay ab_fresh) = 7"
proof -
  have r: "replicate 2 x = [x, x]" for x :: "(string, nat) asyncBatch"
    by (simp add: numeral_2_eq_2)
  have h: "NewAsyncBatcher (2 ^ 45) (2 ^ 44) 2 2 (- 7) = Inr ab_fresh"
    by (simp add: NewAsyncBatcher_def ab_fresh_def sak_Abs_def r)
  have n: "(- 7 :: 64 word) <s 0 \<and> (- 7 :: 64 word) \<noteq> - 9223372036854775808"
    by (simp add: word_sless_alt)
  from NewAsyncBatcher_BatchDelay [OF h] n h show ?thesis by simp
qed

subsection \<open>Scanning for a ready slot\<close>

lemma firstReady_least:
  "i < length bs \<Longrightarrow> state (bs ! i) = batcherReady \<Longrightarrow> \<forall>j<i. state (bs ! j) \<noteq> batcherReady
     \<Longrightarrow> firstReady bs n = Some (n + i)"
proof (induction bs arbitrary: n i)
  case Nil
  then show ?case by simp
next
  case (Cons b bs)
  show ?case
  proof (cases i)
    case 0
    with Cons.prems show ?thesis by simp
  next
    case (Suc i')
    with Cons.prems have b: "state b \<noteq> batcherReady" by auto
    have "\<forall>j<i'. state (bs ! j) \<noteq> batcherReady"
    proof (intro allI impI)
      fix j assume "j < i'"
      then have "Suc j < i" using Suc by simp
      with Cons.prems(3) have "state ((b # bs) ! Suc j) \<noteq> batcherReady" by blast
      then show "state (bs ! j) \<noteq> batcherReady" by simp
    qed
    with Cons.prems Suc have "firstReady bs (Suc n) = Some (Suc n + i')"
      by (intro Cons.IH) simp_all
    with b Suc show ?thesis by simp
  qed
qed

lemma firstReady_None:
  "firstReady bs n = None \<longleftrightarrow> (\<forall>j<length bs. state (bs ! j) \<noteq> batcherReady)"
proof (induction bs arbitrary: n)
  case Nil
  then show ?case by simp
next
  case (Cons b bs)
  have "(\<forall>j<length (b # bs). state ((b # bs) ! j) \<noteq> batcherReady) \<longleftrightarrow>
        state b \<noteq> batcherReady \<and> (\<forall>j<length bs. state (bs ! j) \<noteq> batcherReady)"
    by (auto simp: nth_Cons less_Suc_eq_0_disj split: nat.splits)
  with Cons.IH[of "Suc n"] show ?case by simp
qed

lemma firstReady_Some:
  "firstReady bs n = Some m \<Longrightarrow>
     \<exists>i<length bs. m = n + i \<and> state (bs ! i) = batcherReady"
proof (induction bs arbitrary: n)
  case Nil
  then show ?case by simp
next
  case (Cons b bs)
  show ?case
  proof (cases "state b = batcherReady")
    case True
    with Cons.prems show ?thesis by (intro exI[of _ 0]) simp
  next
    case False
    with Cons.prems have "firstReady bs (Suc n) = Some m" by simp
    from Cons.IH[OF this] obtain i where "i < length bs" "m = Suc n + i"
      "state (bs ! i) = batcherReady" by blast
    then show ?thesis by (intro exI[of _ "Suc i"]) simp
  qed
qed

text \<open>
  C4. Admission of one item: a key assigned to a ready slot targets that slot; a key
  assigned to an executing slot sends the item to the pending queue; an unassigned key
  targets the first ready slot in index order; with no ready slot the item is queued.
\<close>

theorem add_decision_order:
  "(\<forall>i. assignments ab (Key item) = Some i \<and> state (batches ab ! i) = batcherReady
        \<longrightarrow> batchFor ab item = Some i \<and> add ab item = addToBatch ab item i) \<and>
   (\<forall>i. assignments ab (Key item) = Some i \<and> state (batches ab ! i) = batcherExecuting
        \<longrightarrow> batchFor ab item = None \<and> add ab item = ab\<lparr>pendingItems := pendingItems ab @ [item]\<rparr>) \<and>
   (\<forall>i. assignments ab (Key item) = None \<and> i < length (batches ab)
          \<and> state (batches ab ! i) = batcherReady
          \<and> (\<forall>j<i. state (batches ab ! j) \<noteq> batcherReady)
        \<longrightarrow> batchFor ab item = Some i \<and> add ab item = addToBatch ab item i) \<and>
   (assignments ab (Key item) = None \<and> (\<forall>j<length (batches ab). state (batches ab ! j) \<noteq> batcherReady)
        \<longrightarrow> batchFor ab item = None \<and> add ab item = ab\<lparr>pendingItems := pendingItems ab @ [item]\<rparr>)"
proof -
  have scan: "batchFor ab item = Some i \<and> add ab item = addToBatch ab item i"
    if "assignments ab (Key item) = None \<and> i < length (batches ab)
          \<and> state (batches ab ! i) = batcherReady
          \<and> (\<forall>j<i. state (batches ab ! j) \<noteq> batcherReady)" for i
  proof -
    from that have "firstReady (batches ab) 0 = Some (0 + i)"
      by (intro firstReady_least) simp_all
    with that show ?thesis by (simp add: batchFor_def add_def)
  qed
  have none: "batchFor ab item = None \<and> add ab item = ab\<lparr>pendingItems := pendingItems ab @ [item]\<rparr>"
    if "assignments ab (Key item) = None \<and> (\<forall>j<length (batches ab). state (batches ab ! j) \<noteq> batcherReady)"
  proof -
    from that have "firstReady (batches ab) 0 = None"
      by (simp add: firstReady_None)
    with that show ?thesis by (simp add: batchFor_def add_def)
  qed
  show ?thesis
    using scan none by (simp add: batchFor_def add_def)
qed

theorem add_decision_order_witness:
  "add ab_demo \<lparr>batch = 2, Key = ''B'', Value = 7\<rparr> = addToBatch ab_demo \<lparr>batch = 2, Key = ''B'', Value = 7\<rparr> 1 \<and>
   add ab_demo \<lparr>batch = 2, Key = ''A'', Value = 7\<rparr> = ab_demo\<lparr>pendingItems := [\<lparr>batch = 2, Key = ''A'', Value = 7\<rparr>]\<rparr> \<and>
   add ab_demo \<lparr>batch = 2, Key = ''C'', Value = 7\<rparr> = addToBatch ab_demo \<lparr>batch = 2, Key = ''C'', Value = 7\<rparr> 1 \<and>
   add (ab_demo\<lparr>batches := []\<rparr>) \<lparr>batch = 2, Key = ''C'', Value = 7\<rparr>
      = ab_demo\<lparr>batches := [], pendingItems := [\<lparr>batch = 2, Key = ''C'', Value = 7\<rparr>]\<rparr>"
  using add_decision_order [of ab_demo "\<lparr>batch = 2, Key = ''B'', Value = 7\<rparr>"]
    add_decision_order [of ab_demo "\<lparr>batch = 2, Key = ''A'', Value = 7\<rparr>"]
    add_decision_order [of ab_demo "\<lparr>batch = 2, Key = ''C'', Value = 7\<rparr>"]
    add_decision_order [of "ab_demo\<lparr>batches := []\<rparr>" "\<lparr>batch = 2, Key = ''C'', Value = 7\<rparr>"]
  by (simp add: ab_demo_def)

subsection \<open>Completion fan-in\<close>

lemma fst_completeItem: "fst (completeItem b) = b\<lparr>completed := completed b + 1\<rparr>"
  by (simp add: completeItem_def Let_def)

lemma completeItems_fields:
  "Items (fst (completeItems k b)) = Items b \<and>
   callback (fst (completeItems k b)) = callback b \<and>
   EventContext (fst (completeItems k b)) = EventContext b \<and>
   completed (fst (completeItems k b)) = completed b + word_of_nat k"
proof (induction k)
  case 0
  then show ?case by simp
next
  case (Suc k)
  have "fst (completeItems (Suc k) b) = fst (completeItem (fst (completeItems k b)))"
    by (simp split: prod.splits)
  with Suc show ?case by (simp add: fst_completeItem add.assoc add.commute)
qed

lemma word64_of_nat_eq:
  "m < 2 ^ 64 \<Longrightarrow> n < 2 ^ 64 \<Longrightarrow> (word_of_nat m = (word_of_nat n :: 64 word)) = (m = n)"
  by (simp add: word_of_nat_eq_iff take_bit_nat_eq_self)

text \<open>
  C3. On a fresh batch with at least one item, successive \<open>completeItem\<close> calls fire
  nothing before the counter reaches the number of items and exactly one terminal action
  from then on: the callback if there is one, the default asynchronous completion
  otherwise. The counter is an \<open>int64\<close>, so the statement covers fewer than \<open>2 ^ 64\<close>
  calls.
\<close>

theorem completeItem_fires_once:
  "completed b = 0 \<Longrightarrow> 0 < length (Items b) \<Longrightarrow> length (Items b) < 2 ^ 64 \<Longrightarrow> k < 2 ^ 64 \<Longrightarrow>
     snd (completeItems k b) =
       (if k < length (Items b) then []
        else if callback b then [CallbackInvoked]
        else [AsyncJobComplete \<lparr>ctx = EventContext b, finalize = (Complete, None)\<rparr>])"
proof (induction k)
  case 0
  then show ?case by simp
next
  case (Suc k)
  obtain b1 ts where r: "completeItems k b = (b1, ts)" by (cases "completeItems k b")
  from Suc.prems have k: "k < 2 ^ 64" by simp
  from completeItems_fields[of k b] r Suc.prems(1)
  have f: "Items b1 = Items b" "callback b1 = callback b" "EventContext b1 = EventContext b"
    "completed b1 = word_of_nat k" by simp_all
  have ts: "ts = (if k < length (Items b) then []
        else if callback b then [CallbackInvoked]
        else [AsyncJobComplete \<lparr>ctx = EventContext b, finalize = (Complete, None)\<rparr>])"
    using Suc.IH[OF Suc.prems(1,2,3) k] r by simp
  have "completed b1 + 1 = word_of_nat (Suc k)" using f(4) by simp
  then have eq: "(completed b1 + 1 = word_of_nat (length (Items b))) = (Suc k = length (Items b))"
    using word64_of_nat_eq[OF Suc.prems(4) Suc.prems(3)] by (simp only:)
  show ?case
    using r ts f eq by (auto simp: completeItem_def Let_def)
qed

theorem completeItem_fires_once_witness:
  "snd (completeItems 1 (batch_demo True)) = [] \<and>
   snd (completeItems 2 (batch_demo True)) = [CallbackInvoked] \<and>
   snd (completeItems 5 (batch_demo True)) = [CallbackInvoked] \<and>
   snd (completeItems 5 (batch_demo False)) =
     [AsyncJobComplete \<lparr>ctx = EventContext (batch_demo False), finalize = (Complete, None)\<rparr>]"
  using completeItem_fires_once [of "batch_demo True" 1]
    completeItem_fires_once [of "batch_demo True" 2]
    completeItem_fires_once [of "batch_demo True" 5]
    completeItem_fires_once [of "batch_demo False" 5]
  by (simp add: batch_demo_def)

section \<open>Keys and slots\<close>

lemma items_list_update:
  assumes "items x = items (bs ! i)"
  shows "items (bs[i := x] ! j) = items (bs ! j)"
proof (cases "i < length bs")
  case True
  with assms show ?thesis by (cases "j = i") simp_all
next
  case False
  then show ?thesis by (simp add: list_update_beyond)
qed

lemma conditionallyExecuteBatch_fields:
  "assignments (conditionallyExecuteBatch ab i) = assignments ab"
  "pendingItems (conditionallyExecuteBatch ab i) = pendingItems ab"
  "length (batches (conditionallyExecuteBatch ab i)) = length (batches ab)"
  by (simp_all add: conditionallyExecuteBatch_def)

lemma conditionallyExecuteBatch_items:
  "items (batches (conditionallyExecuteBatch ab i) ! j) = items (batches ab ! j)"
  by (simp add: conditionallyExecuteBatch_def items_list_update)

lemma conditionallyExecuteBatch_launched:
  "set (launched (conditionallyExecuteBatch ab i)) \<subseteq> insert i (set (launched ab))"
  by (auto simp: conditionallyExecuteBatch_def)

lemma addToBatch_fields:
  "assignments (addToBatch ab item i) = (assignments ab)(Key item \<mapsto> i)"
  "pendingItems (addToBatch ab item i) = pendingItems ab"
  "length (batches (addToBatch ab item i)) = length (batches ab)"
  by (simp_all add: addToBatch_def Let_def conditionallyExecuteBatch_fields)

lemma addToBatch_launched:
  "set (launched (addToBatch ab item i)) \<subseteq> insert i (set (launched ab))"
proof -
  let ?ab1 = "ab\<lparr>assignments := (assignments ab)(Key item \<mapsto> i),
                   batches := (batches ab)[i := add_item (batches ab ! i) item]\<rparr>"
  have "set (launched (conditionallyExecuteBatch ?ab1 i)) \<subseteq> insert i (set (launched ?ab1))"
    by (rule conditionallyExecuteBatch_launched)
  then show ?thesis by (auto simp: addToBatch_def Let_def)
qed

lemma size_or_timer_items:
  "items (batches (if int (length (items (batches ab1 ! i))) = MaxBatchSize ab1 then
                     conditionallyExecuteBatch ab1 i
                   else if \<not> flushTimer (batches ab1 ! i) then
                     ab1\<lparr>batches := (batches ab1)[i := (batches ab1 ! i)\<lparr>flushTimer := True\<rparr>]\<rparr>
                   else ab1) ! j) = items (batches ab1 ! j)"
  by (simp add: conditionallyExecuteBatch_items items_list_update)

lemma addToBatch_items:
  assumes "i < length (batches ab)"
  shows "items (batches (addToBatch ab item i) ! j) =
       (if j = i then items (batches ab ! i) @ [item] else items (batches ab ! j))"
proof -
  let ?ab1 = "ab\<lparr>assignments := (assignments ab)(Key item \<mapsto> i),
                   batches := (batches ab)[i := add_item (batches ab ! i) item]\<rparr>"
  have 1: "items (batches ?ab1 ! j) =
       (if j = i then items (batches ab ! i) @ [item] else items (batches ab ! j))"
    using assms by (simp add: add_item_def)
  have "items (batches (addToBatch ab item i) ! j) = items (batches ?ab1 ! j)"
    by (simp only: addToBatch_def Let_def size_or_timer_items)
  with 1 show ?thesis by simp
qed

lemma inv_conditionallyExecuteBatch:
  "batcher_inv ab \<Longrightarrow> i < length (batches ab) \<Longrightarrow> batcher_inv (conditionallyExecuteBatch ab i)"
  unfolding batcher_inv_def
  using conditionallyExecuteBatch_launched[of ab i]
  by (auto simp: conditionallyExecuteBatch_fields conditionallyExecuteBatch_items)

lemma inv_addToBatch:
  assumes inv: "batcher_inv ab" and i: "i < length (batches ab)"
    and k: "assignments ab (Key item) = Some i \<or> assignments ab (Key item) = None"
  shows "batcher_inv (addToBatch ab item i)"
proof -
  let ?ab = "addToBatch ab item i"
  have p1: "i' < length (batches ?ab) \<and> k' \<in> Key ` set (items (batches ?ab ! i'))"
    if "assignments ?ab k' = Some i'" for k' i'
  proof (cases "k' = Key item")
    case True
    with that i show ?thesis by (simp add: addToBatch_fields addToBatch_items)
  next
    case False
    with that have "assignments ab k' = Some i'" by (simp add: addToBatch_fields)
    with inv have "i' < length (batches ab)" "k' \<in> Key ` set (items (batches ab ! i'))"
      unfolding batcher_inv_def by blast+
    with i show ?thesis by (auto simp: addToBatch_fields addToBatch_items)
  qed
  have p2: "assignments ?ab k' = Some j"
    if j: "j < length (batches ?ab)" and k': "k' \<in> Key ` set (items (batches ?ab ! j))" for j k'
  proof -
    from j have j': "j < length (batches ab)" by (simp add: addToBatch_fields)
    show ?thesis
    proof (cases "k' = Key item")
      case True
      have "j = i"
      proof (rule ccontr)
        assume ne: "j \<noteq> i"
        with k' i have "k' \<in> Key ` set (items (batches ab ! j))" by (simp add: addToBatch_items)
        with inv j' have "assignments ab k' = Some j" unfolding batcher_inv_def by blast
        with k True ne show False by auto
      qed
      with True show ?thesis by (simp add: addToBatch_fields)
    next
      case False
      with k' i have "k' \<in> Key ` set (items (batches ab ! j))"
        by (auto simp: addToBatch_items split: if_splits)
      with inv j' have "assignments ab k' = Some j" unfolding batcher_inv_def by blast
      with False show ?thesis by (simp add: addToBatch_fields)
    qed
  qed
  have p3: "j < length (batches ?ab)" if "j \<in> set (launched ?ab)" for j
  proof -
    from that addToBatch_launched[of ab item i] have "j = i \<or> j \<in> set (launched ab)" by auto
    with inv i show ?thesis unfolding batcher_inv_def by (auto simp: addToBatch_fields)
  qed
  show ?thesis unfolding batcher_inv_def using p1 p2 p3 by blast
qed

lemma batchFor_target:
  assumes inv: "batcher_inv ab" and b: "batchFor ab item = Some i"
  shows "i < length (batches ab) \<and>
         (assignments ab (Key item) = Some i \<or> assignments ab (Key item) = None)"
proof (cases "assignments ab (Key item)")
  case None
  with b have "firstReady (batches ab) 0 = Some i" by (simp add: batchFor_def)
  from firstReady_Some[OF this] None show ?thesis by auto
next
  case (Some j)
  with b have "j = i" by (auto simp: batchFor_def split: if_splits)
  with Some inv show ?thesis unfolding batcher_inv_def by blast
qed

lemma inv_pendingItems: "batcher_inv (ab\<lparr>pendingItems := p\<rparr>) = batcher_inv ab"
  by (simp add: batcher_inv_def)

lemma inv_add: "batcher_inv ab \<Longrightarrow> batcher_inv (add ab item)"
  using batchFor_target[of ab item]
  by (auto simp: add_def inv_pendingItems inv_addToBatch split: option.splits)

lemma inv_foldl_add: "batcher_inv ab \<Longrightarrow> batcher_inv (foldl add ab its)"
  by (induction its arbitrary: ab) (simp_all add: inv_add)

lemma inv_flushLoop: "batcher_inv ab \<Longrightarrow> batcher_inv (flushLoop ab kept rest)"
proof (induction rest arbitrary: ab kept)
  case Nil
  then show ?case by (simp add: inv_pendingItems)
next
  case (Cons el rest)
  show ?case
  proof (cases "batchFor ab el")
    case None
    with Cons show ?thesis by simp
  next
    case (Some b)
    from batchFor_target[OF Cons.prems Some] Cons.prems
    have "batcher_inv (addToBatch ab el b)" by (intro inv_addToBatch) auto
    with Some Cons.IH show ?thesis by (simp add: Let_def inv_pendingItems)
  qed
qed

lemma delete_keys_apply:
  "delete_keys m its k = (if k \<in> Key ` set its then None else m k)"
  by (induction its arbitrary: m) auto

lemma inv_reset:
  assumes inv: "batcher_inv ab" and i: "i < length (batches ab)"
    and ab': "ab' = ab\<lparr>batches := (batches ab)[i := fst (reset (batches ab ! i) (assignments ab))],
                         assignments := snd (reset (batches ab ! i) (assignments ab))\<rparr>"
  shows "batcher_inv ab'"
proof -
  have len: "length (batches ab') = length (batches ab)" by (simp add: ab')
  have asg: "assignments ab' k = (if k \<in> Key ` set (items (batches ab ! i)) then None else assignments ab k)" for k
    by (simp add: ab' reset_def delete_keys_apply)
  have its: "items (batches ab' ! j) = (if j = i then [] else items (batches ab ! j))" for j
    using i by (simp add: ab' reset_def)
  have lau: "launched ab' = launched ab" by (simp add: ab')
  have p1: "j < length (batches ab') \<and> k \<in> Key ` set (items (batches ab' ! j))"
    if "assignments ab' k = Some j" for k j
  proof -
    from that have notin: "k \<notin> Key ` set (items (batches ab ! i))" and a: "assignments ab k = Some j"
      by (auto simp: asg split: if_splits)
    from inv a have j: "j < length (batches ab)" "k \<in> Key ` set (items (batches ab ! j))"
      unfolding batcher_inv_def by blast+
    with notin have "j \<noteq> i" by auto
    with j show ?thesis by (simp add: len its)
  qed
  have p2: "assignments ab' k = Some j"
    if j: "j < length (batches ab')" and k: "k \<in> Key ` set (items (batches ab' ! j))" for j k
  proof -
    from j have j': "j < length (batches ab)" by (simp add: len)
    from k have ne: "j \<noteq> i" by (auto simp: its split: if_splits)
    with k have kj: "k \<in> Key ` set (items (batches ab ! j))" by (simp add: its)
    with inv j' have a: "assignments ab k = Some j" unfolding batcher_inv_def by blast
    have "k \<notin> Key ` set (items (batches ab ! i))"
    proof
      assume "k \<in> Key ` set (items (batches ab ! i))"
      with inv i have "assignments ab k = Some i" unfolding batcher_inv_def by blast
      with a ne show False by simp
    qed
    with a show ?thesis by (simp add: asg)
  qed
  have p3: "j < length (batches ab')" if "j \<in> set (launched ab')" for j
    using that inv unfolding batcher_inv_def by (simp add: lau len)
  show ?thesis unfolding batcher_inv_def using p1 p2 p3 by blast
qed

lemma batcher_completeItem_at: "batcher (completeItem_at s a) = batcher s"
  by (simp add: completeItem_at_def split: prod.splits)

lemma batcher_completeAll: "batcher (completeAll s its) = batcher s"
  by (induction its arbitrary: s) (simp_all add: batcher_completeItem_at)

lemma inv_executingCount: "batcher_inv (ab\<lparr>executingCount := c\<rparr>) = batcher_inv ab"
  by (simp add: batcher_inv_def)

lemma inv_executeBatch:
  assumes inv: "batcher_inv (batcher s)" and i: "i < length (batches (batcher s))"
  shows "batcher_inv (batcher (executeBatch s i))"
proof -
  let ?ab1 = "(batcher s)\<lparr>executingCount := executingCount (batcher s) - 1\<rparr>"
  have "batcher_inv ?ab1" using inv by (simp add: inv_executingCount)
  from inv_reset[OF this, of i, OF _ refl] i
  show ?thesis
    by (simp add: executeBatch_def Let_def batcher_completeAll flushPendingItems_def inv_flushLoop)
qed

lemma inv_launched_remove:
  "batcher_inv ab \<Longrightarrow> batcher_inv (ab\<lparr>launched := remove1 i (launched ab)\<rparr>)"
  unfolding batcher_inv_def using set_remove1_subset[of i "launched ab"] by auto

lemma inv_step: "batcher_inv (batcher s) \<Longrightarrow> batcher_inv (batcher (step s e))"
proof (cases e)
  case (Submit a)
  assume "batcher_inv (batcher s)"
  with Submit show ?thesis by (simp add: AsyncBatcher_Add_def inv_foldl_add)
next
  case (AddItem a n)
  assume "batcher_inv (batcher s)"
  with AddItem show ?thesis by (simp add: inv_add)
next
  case (TimerFired i)
  assume "batcher_inv (batcher s)"
  with TimerFired show ?thesis by (simp add: inv_conditionallyExecuteBatch)
next
  case (BatchRun i)
  assume inv: "batcher_inv (batcher s)"
  show ?thesis
  proof (cases "i \<in> set (launched (batcher s))")
    case True
    with inv have i: "i < length (batches (batcher s))" unfolding batcher_inv_def by blast
    let ?s = "s\<lparr>batcher := (batcher s)\<lparr>launched := remove1 i (launched (batcher s))\<rparr>\<rparr>"
    have "batcher_inv (batcher ?s)" using inv by (simp add: inv_launched_remove)
    moreover have "i < length (batches (batcher ?s))" using i by simp
    ultimately have "batcher_inv (batcher (executeBatch ?s i))" by (rule inv_executeBatch)
    with True BatchRun show ?thesis by simp
  next
    case False
    with inv BatchRun show ?thesis by simp
  qed
qed

lemma inv_run: "batcher_inv (batcher s) \<Longrightarrow> batcher_inv (batcher (run s es))"
  unfolding run_def by (induction es arbitrary: s) (simp_all add: inv_step)

lemma inv_NewAsyncBatcher:
  "NewAsyncBatcher lenLimit capLimit maxBatchSize maxConcurrentBatches delay = Inr ab \<Longrightarrow> batcher_inv ab"
  by (auto simp: NewAsyncBatcher_def batcher_inv_def Let_def split: if_splits)

text \<open>
  C2. In every state the batcher reaches from \<open>NewAsyncBatcher\<close>, no key is among the items
  of two slots; a key in \<open>assignments\<close> is assigned to an existing slot, that slot holds an
  item with the key and no other slot does; and the \<open>reset\<close> of a slot removes from
  \<open>assignments\<close> the keys assigned to that slot and leaves every other key as it is.
\<close>

theorem key_occupies_one_slot:
  assumes new: "NewAsyncBatcher lenLimit capLimit maxBatchSize maxConcurrentBatches delay = Inr ab0"
    and ab: "ab = batcher (run (start ab0 h) es)"
  shows "(\<forall>i<length (batches ab). \<forall>j<length (batches ab). \<forall>k.
            k \<in> Key ` set (items (batches ab ! i)) \<and> k \<in> Key ` set (items (batches ab ! j))
              \<longrightarrow> i = j) \<and>
         (\<forall>k i. assignments ab k = Some i \<longrightarrow>
            i < length (batches ab) \<and> k \<in> Key ` set (items (batches ab ! i)) \<and>
            (\<forall>j<length (batches ab). k \<in> Key ` set (items (batches ab ! j)) \<longrightarrow> j = i)) \<and>
         (\<forall>i<length (batches ab). \<forall>k.
            snd (reset (batches ab ! i) (assignments ab)) k =
              (if assignments ab k = Some i then None else assignments ab k))"
proof -
  have "batcher_inv (batcher (start ab0 h))"
    using inv_NewAsyncBatcher[OF new] by (simp add: start_def)
  then have inv: "batcher_inv ab" unfolding ab by (rule inv_run)
  have one: "i = j" if "i < length (batches ab)" "j < length (batches ab)"
    "k \<in> Key ` set (items (batches ab ! i))" "k \<in> Key ` set (items (batches ab ! j))" for i j k
  proof -
    from inv that have "assignments ab k = Some i" "assignments ab k = Some j"
      unfolding batcher_inv_def by blast+
    then show ?thesis by simp
  qed
  have asg: "i < length (batches ab) \<and> k \<in> Key ` set (items (batches ab ! i))"
    if "assignments ab k = Some i" for k i
    using inv that unfolding batcher_inv_def by blast
  have rst: "snd (reset (batches ab ! i) (assignments ab)) k =
              (if assignments ab k = Some i then None else assignments ab k)"
    if i: "i < length (batches ab)" for i k
  proof (cases "k \<in> Key ` set (items (batches ab ! i))")
    case True
    with inv i have "assignments ab k = Some i" unfolding batcher_inv_def by blast
    with True show ?thesis by (simp add: reset_def delete_keys_apply)
  next
    case False
    with asg[of k i] have "assignments ab k \<noteq> Some i" by blast
    with False show ?thesis by (simp add: reset_def delete_keys_apply)
  qed
  have c1: "\<forall>i<length (batches ab). \<forall>j<length (batches ab). \<forall>k.
            k \<in> Key ` set (items (batches ab ! i)) \<and> k \<in> Key ` set (items (batches ab ! j))
              \<longrightarrow> i = j"
    using one by blast
  have c2: "\<forall>k i. assignments ab k = Some i \<longrightarrow>
            i < length (batches ab) \<and> k \<in> Key ` set (items (batches ab ! i)) \<and>
            (\<forall>j<length (batches ab). k \<in> Key ` set (items (batches ab ! j)) \<longrightarrow> j = i)"
  proof (intro allI impI)
    fix k i assume a: "assignments ab k = Some i"
    from asg[OF a] one[of _ i k]
    show "i < length (batches ab) \<and> k \<in> Key ` set (items (batches ab ! i)) \<and>
            (\<forall>j<length (batches ab). k \<in> Key ` set (items (batches ab ! j)) \<longrightarrow> j = i)"
      by blast
  qed
  have c3: "\<forall>i<length (batches ab). \<forall>k.
            snd (reset (batches ab ! i) (assignments ab)) k =
              (if assignments ab k = Some i then None else assignments ab k)"
    using rst by blast
  from c1 c2 c3 show ?thesis by (intro conjI)
qed


lemmas scenario_defs = run_def start_def heap_demo_def ab_single_def item_A_def item_B_def
    AsyncBatcher_Add_def add_def batchFor_def addToBatch_def conditionallyExecuteBatch_def
    add_item_def executeBatch_def reset_def flushPendingItems_def completeItem_at_def
    completeItem_def batchFor_item_def Let_def ec_demo_def

theorem key_occupies_one_slot_witness:
  "NewAsyncBatcher (2 ^ 45) (2 ^ 44) 2 2 (- 7) = Inr ab_fresh \<and>
   assignments (batcher (run (start ab_fresh heap_demo) [Submit 1, Submit 2])) ''B'' = Some 0 \<and>
   ''B'' \<in> Key ` set (items (batches (batcher (run (start ab_fresh heap_demo) [Submit 1, Submit 2])) ! 0)) \<and>
   ''B'' \<notin> Key ` set (items (batches (batcher (run (start ab_fresh heap_demo) [Submit 1, Submit 2])) ! 1))"
proof -
  have r: "replicate 2 x = [x, x]" for x :: "(string, nat) asyncBatch"
    by (simp add: numeral_2_eq_2)
  have h: "NewAsyncBatcher (2 ^ 45) (2 ^ 44) 2 2 (- 7) = Inr ab_fresh"
    by (simp add: NewAsyncBatcher_def ab_fresh_def sak_Abs_def r)
  let ?ab = "batcher (run (start ab_fresh heap_demo) [Submit 1, Submit 2])"
  have a: "assignments ?ab ''B'' = Some 0" and l: "length (batches ?ab) = 2"
    by (simp_all add: scenario_defs ab_fresh_def)
  from key_occupies_one_slot [OF h refl, of heap_demo "[Submit 1, Submit 2]"]
  have "\<forall>k i. assignments ?ab k = Some i \<longrightarrow>
            i < length (batches ?ab) \<and> k \<in> Key ` set (items (batches ?ab ! i)) \<and>
            (\<forall>j<length (batches ?ab). k \<in> Key ` set (items (batches ?ab ! j)) \<longrightarrow> j = i)"
    by (elim conjE)
  with a have "''B'' \<in> Key ` set (items (batches ?ab ! 0)) \<and>
            (\<forall>j<length (batches ?ab). ''B'' \<in> Key ` set (items (batches ?ab ! j)) \<longrightarrow> j = 0)"
    by blast
  then have in0: "''B'' \<in> Key ` set (items (batches ?ab ! 0))"
    and only: "\<forall>j<length (batches ?ab). ''B'' \<in> Key ` set (items (batches ?ab ! j)) \<longrightarrow> j = 0"
    by blast+
  have "''B'' \<notin> Key ` set (items (batches ?ab ! 1))"
  proof
    assume "''B'' \<in> Key ` set (items (batches ?ab ! 1))"
    moreover have "(1::nat) < length (batches ?ab)" using l by simp
    ultimately have "(1::nat) = 0" using only by blast
    then show False by simp
  qed
  with h a in0 show ?thesis by simp
qed


section \<open>Flushing the pending queue\<close>

text \<open>
  C1. One slot of one item, two items with keys \<open>A\<close> and \<open>B\<close>. \<open>B\<close> waits in the pending
  queue while \<open>A\<close> executes. The flush after \<open>A\<close>'s execution puts \<open>B\<close> on the slot, which
  saturates the batcher: \<open>flushPendingItems\<close> returns before removing \<open>B\<close> from the queue.
  \<open>B\<close> is then on the slot and in the queue, and each later flush admits it again: the
  executor receives \<open>B\<close> twice after three executions, and \<open>B\<close> is still queued.
\<close>

theorem flushPendingItems_keeps_admitted_item:
  "NewAsyncBatcher (2 ^ 45) (2 ^ 44) 1 1 0 = Inr ab_single \<and>
   items (batches (batcher (run (start ab_single heap_demo) [Submit 1, Submit 2, BatchRun 0])) ! 0) = [item_B] \<and>
   pendingItems (batcher (run (start ab_single heap_demo) [Submit 1, Submit 2, BatchRun 0])) = [item_B] \<and>
   executorCalls (run (start ab_single heap_demo) [Submit 1, Submit 2, BatchRun 0, BatchRun 0, BatchRun 0])
     = [[item_A], [item_B], [item_B]] \<and>
   completeCalls (run (start ab_single heap_demo) [Submit 1, Submit 2, BatchRun 0, BatchRun 0, BatchRun 0])
     = [1, 2, 2] \<and>
   pendingItems (batcher (run (start ab_single heap_demo) [Submit 1, Submit 2, BatchRun 0, BatchRun 0, BatchRun 0]))
     = [item_B]"
proof -
  have "NewAsyncBatcher (2 ^ 45) (2 ^ 44) 1 1 0 = Inr ab_single"
    by (simp add: NewAsyncBatcher_def ab_single_def sak_Abs_def Millisecond_def)
  moreover have
    "items (batches (batcher (run (start ab_single heap_demo) [Submit 1, Submit 2, BatchRun 0])) ! 0) = [item_B]"
    "pendingItems (batcher (run (start ab_single heap_demo) [Submit 1, Submit 2, BatchRun 0])) = [item_B]"
    by (simp_all add: scenario_defs)
  moreover have
    "executorCalls (run (start ab_single heap_demo) [Submit 1, Submit 2, BatchRun 0, BatchRun 0, BatchRun 0])
       = [[item_A], [item_B], [item_B]]"
    by (simp add: scenario_defs)
  moreover have
    "completeCalls (run (start ab_single heap_demo) [Submit 1, Submit 2, BatchRun 0, BatchRun 0, BatchRun 0])
       = [1, 2, 2]"
    by (simp add: scenario_defs)
  moreover have
    "pendingItems (batcher (run (start ab_single heap_demo) [Submit 1, Submit 2, BatchRun 0, BatchRun 0, BatchRun 0]))
       = [item_B]"
    by (simp add: scenario_defs)
  ultimately show ?thesis by (intro conjI)
qed

section \<open>Empty batches\<close>

lemma NewBatch_parent: "\<forall>it \<in> set (Items (NewBatch ec cb)). batch it = a"
  by (simp add: NewBatch_def)

lemma Batch_Add_parent:
  "\<forall>it \<in> set (Items b). batch it = a \<Longrightarrow> \<forall>it \<in> set (Items (Batch_Add a b its)). batch it = a"
  by (auto simp: Batch_Add_def)

lemma AddKeyValue_parent:
  "\<forall>it \<in> set (Items b). batch it = a \<Longrightarrow> \<forall>it \<in> set (Items (AddKeyValue a b k v)). batch it = a"
  by (auto simp: AddKeyValue_def)
















section \<open>Properties of the partition worker\<close>

subsection \<open>Scheduling\<close>








subsection \<open>Events\<close>

text \<open>
  C7. When the read of \<open>ec.producerChan\<close> yields nil, \<open>forwardToEventSource\<close> leaves the
  worker as it is and the user's handler is not called; when it yields a producer, the
  handler is called once, on the context holding that producer.
\<close>

theorem nil_producer_skips_handler:
  "(delivered = None \<longrightarrow>
      forwardToEventSource h pw ec delivered = (pw, ec\<lparr>producer := None\<rparr>) \<and>
      handlerCalls (fst (snd (handleEvent h pw ec delivered))) = handlerCalls pw) \<and>
   (\<forall>p. delivered = Some p \<longrightarrow>
      handlerCalls (fst (forwardToEventSource h pw ec delivered))
        = handlerCalls pw @ [ec\<lparr>producer := Some p\<rparr>] \<and>
      handlerCalls (fst (snd (handleEvent h pw ec delivered)))
        = handlerCalls pw @ [ec\<lparr>producer := Some p\<rparr>])"
  by (auto simp: forwardToEventSource_def handleEvent_def Let_def split: prod.splits)

theorem nil_producer_skips_handler_witness:
  "forwardToEventSource handler_complete pw_demo (newEventContext \<lparr>Offset = 10, Payload = ''c''\<rparr>) None
     = (pw_demo, newEventContext \<lparr>Offset = 10, Payload = ''c''\<rparr>) \<and>
   handlerCalls (fst (snd (handleEvent handler_complete pw_demo (newEventContext \<lparr>Offset = 10, Payload = ''c''\<rparr>) None))) = [] \<and>
   handlerCalls (fst (snd (handleEvent handler_complete pw_demo (newEventContext \<lparr>Offset = 10, Payload = ''c''\<rparr>) (Some 7))))
     = [\<lparr>input = Some \<lparr>Offset = 10, Payload = ''c''\<rparr>, producer = Some 7\<rparr>]"
  using nil_producer_skips_handler [of None handler_complete pw_demo "newEventContext \<lparr>Offset = 10, Payload = ''c''\<rparr>"]
    nil_producer_skips_handler [of "Some 7" handler_complete pw_demo "newEventContext \<lparr>Offset = 10, Payload = ''c''\<rparr>"]
  by (simp add: newEventContext_def pw_demo_def)

text \<open>
  C9. \<open>handleEvent\<close> decrements \<open>pending\<close>, sets \<open>highestOffset\<close> to the offset of the
  context plus one and increments \<open>processed\<close>, whatever \<open>ec.producerChan\<close> yields; when it
  yields nil these are the only changes to the worker.
\<close>

theorem handleEvent_counters:
  "pending (fst (snd (handleEvent h pw ec delivered))) = pending pw - 1 \<and>
   highestOffset (fst (snd (handleEvent h pw ec delivered))) = ec_Offset ec + 1 \<and>
   processed (fst (snd (handleEvent h pw ec delivered))) = processed pw + 1 \<and>
   (delivered = None \<longrightarrow>
      handleEvent h pw ec delivered =
        (True, pw\<lparr>pending := pending pw - 1, highestOffset := ec_Offset ec + 1,
                 processed := processed pw + 1\<rparr>, ec\<lparr>producer := None\<rparr>))"
  by (auto simp: forwardToEventSource_def handleEvent_def Let_def split: prod.splits)

theorem handleEvent_counters_witness:
  "handleEvent handler_complete pw_demo (newEventContext \<lparr>Offset = 10, Payload = ''c''\<rparr>) None =
     (True, pw_demo\<lparr>pending := 3, highestOffset := 11, processed := 1\<rparr>,
      newEventContext \<lparr>Offset = 10, Payload = ''c''\<rparr>)"
  using handleEvent_counters [of handler_complete pw_demo "newEventContext \<lparr>Offset = 10, Payload = ''c''\<rparr>" None]
  by (simp add: newEventContext_def pw_demo_def ec_Offset_def)

subsection \<open>Asynchronous jobs\<close>

text \<open>
  C5, as stated, fails: a job whose \<open>finalize\<close> returns an error leaves the error log
  empty. The worker drops the error.
\<close>

theorem finalize_error_not_logged:
  "snd (finalize job_failed) = Some ''boom'' \<and>
   work_iteration handler_complete [] (pw_demo\<lparr>asyncJobs := [job_failed]\<rparr>) FromAsyncJobs
     = Inr (pw_demo\<lparr>asyncFullReply := 1\<rparr>, True) \<and>
   errorLog (pw_demo\<lparr>asyncFullReply := 1\<rparr>) = []"
  by (simp add: job_failed_def pw_demo_def)

text \<open>
  C5, amended. For a job taken from \<open>asyncJobs\<close> the worker reads the result of
  \<open>finalize\<close>; it marks the job's context complete if and only if the state is
  \<open>Complete\<close>, whether or not there is an error; it offers one signal on
  \<open>asyncFullReply\<close>; it logs nothing, and the loop goes on.
\<close>

theorem asyncJob_iteration:
  "asyncJobs pw = job # queued \<Longrightarrow>
   work_iteration h ijPtrs pw FromAsyncJobs =
     Inr (pw\<lparr>asyncJobs := queued,
             completeCalled := (if fst (finalize job) = Complete then completeCalled pw @ [ctx job]
                                  else completeCalled pw),
             asyncFullReply := (if asyncFullReply pw < 1 then asyncFullReply pw + 1
                                else asyncFullReply pw)\<rparr>, True)"
  by (auto simp: Let_def split: prod.splits)

theorem asyncJob_iteration_witness:
  "work_iteration handler_complete [] (pw_demo\<lparr>asyncJobs := [job_complete_failed, job_failed]\<rparr>)
      FromAsyncJobs
     = Inr (pw_demo\<lparr>asyncJobs := [job_failed], completeCalled := [ec_demo 10],
                     asyncFullReply := 1\<rparr>, True) \<and>
   work_iteration handler_complete [] (pw_demo\<lparr>asyncJobs := [job_failed]\<rparr>) FromAsyncJobs
     = Inr (pw_demo\<lparr>asyncFullReply := 1\<rparr>, True)"
  using asyncJob_iteration [of "pw_demo\<lparr>asyncJobs := [job_complete_failed, job_failed]\<rparr>"
      job_complete_failed "[job_failed]" handler_complete "[]"]
    asyncJob_iteration [of "pw_demo\<lparr>asyncJobs := [job_failed]\<rparr>" job_failed "[]" handler_complete "[]"]
  by (simp add: job_failed_def job_complete_failed_def pw_demo_def)

end
